theory Spec2Isabelle
  imports Complex_Main "HOL-Library.Char_ord" "HOL-Library.List_Lexorder" "HOL-Library.Multiset"
begin

section \<open>Python values, strings and errors\<close>

text \<open>
  The module \<^verbatim>\<open>ros2graph/api/__init__.py\<close> is embedded function by function.

  A Python \<^verbatim>\<open>str\<close> is a \<^typ>\<open>string\<close>; one \<^typ>\<open>char\<close> stands for one code point in
  the range U+0000 .. U+00FF, and strings are compared by code point, as Python does
  (the order on \<^typ>\<open>string\<close> is the lexicographic one over the order of the codes).
  Python's unbounded \<^verbatim>\<open>int\<close> is \<^typ>\<open>int\<close>. A finite \<^verbatim>\<open>float\<close> is taken as the
  \<^typ>\<open>real\<close> it denotes, with exact arithmetic (the rounding of a double product or sum
  and the values \<^verbatim>\<open>nan\<close> and \<^verbatim>\<open>inf\<close> are outside the model).
\<close>

abbreviation NL :: char where "NL \<equiv> CHR 0x0A"
abbreviation TAB :: char where "TAB \<equiv> CHR 0x09"
abbreviation BS :: char where "BS \<equiv> CHR 0x5C"
abbreviation DQ :: char where "DQ \<equiv> CHR 0x22"

text \<open>
  The values a caller can hand to the writer. \<open>PBool\<close> is apart from \<open>PInt\<close> because
  \<^verbatim>\<open>str\<close> prints it differently, although \<^verbatim>\<open>bool\<close> is a subclass of \<^verbatim>\<open>int\<close>.
  A float is carried as the text \<^verbatim>\<open>str\<close> gives for it: the writer does nothing else
  with a float. \<open>POther\<close> stands for an object of any other class (a list, a tuple,
  bytes, ...).
\<close>

datatype pyval = PInt int | PBool bool | PFloat string | PStr string | PNone | POther

datatype error = TypeError | ValueError

subsection \<open>\<^verbatim>\<open>str\<close> on integers and booleans, \<^verbatim>\<open>"%02x" %\<close> on integers\<close>

definition digit_char :: "nat \<Rightarrow> char" where
  "digit_char d = ''0123456789abcdef'' ! d"

fun digits :: "nat \<Rightarrow> nat \<Rightarrow> string" where
  "digits b n =
     (if n < b \<or> b < 2 then [digit_char n] else digits b (n div b) @ [digit_char (n mod b)])"

declare digits.simps [simp del]

definition str_int :: "int \<Rightarrow> string" where
  "str_int i = (if i < 0 then CHR ''-'' # digits 10 (nat (- i)) else digits 10 (nat i))"

definition str_bool :: "bool \<Rightarrow> string" where
  "str_bool b = (if b then ''True'' else ''False'')"



subsection \<open>String methods\<close>

text \<open>\<^verbatim>\<open>str.isalnum\<close> on one code point below 256: the ASCII digits and letters, and the
  letters and numeric characters of Latin-1.\<close>

definition isalnum_char :: "char \<Rightarrow> bool" where
  "isalnum_char c =
     (let n = (of_char c :: nat) in
        (48 \<le> n \<and> n \<le> 57) \<or> (65 \<le> n \<and> n \<le> 90) \<or> (97 \<le> n \<and> n \<le> 122) \<or>
        n \<in> {0xAA, 0xB2, 0xB3, 0xB5, 0xB9, 0xBA, 0xBC, 0xBD, 0xBE} \<or>
        (0xC0 \<le> n \<and> n \<le> 0xD6) \<or> (0xD8 \<le> n \<and> n \<le> 0xF6) \<or> 0xF8 \<le> n)"

text \<open>\<^verbatim>\<open>s.isalnum()\<close> is false on the empty string.\<close>

definition isalnum :: "string \<Rightarrow> bool" where
  "isalnum s = (s \<noteq> [] \<and> list_all isalnum_char s)"

definition startswith :: "string \<Rightarrow> string \<Rightarrow> bool" where
  "startswith s p = (take (length p) s = p)"

definition endswith :: "string \<Rightarrow> string \<Rightarrow> bool" where
  "endswith s p = (drop (length s - length p) s = p \<and> length p \<le> length s)"

text \<open>\<^verbatim>\<open>s.replace(old, new)\<close> where \<^verbatim>\<open>old\<close> is one character.\<close>

definition replace :: "char \<Rightarrow> string \<Rightarrow> string \<Rightarrow> string" where
  "replace old new s = concat (map (\<lambda>c. if c = old then new else [c]) s)"

text \<open>\<^verbatim>\<open>s.rsplit(sep, 1)\<close>: the string alone when it has no separator, else what is
  before and what is after the last separator.\<close>

definition rsplit1 :: "char \<Rightarrow> string \<Rightarrow> string list" where
  "rsplit1 sep s =
     (let r = rev s in
      case dropWhile (\<lambda>c. c \<noteq> sep) r of
        [] \<Rightarrow> [s]
      | _ # before \<Rightarrow> [rev before, rev (takeWhile (\<lambda>c. c \<noteq> sep) r)])"

section \<open>Node names and the identifier counter\<close>

record NodeName =
  name :: string
  namespace :: string
  full_name :: string
  id_nn :: string

text \<open>The module's global \<^verbatim>\<open>g_id\<close> is passed in and returned.\<close>

definition get_id :: "string \<Rightarrow> int \<Rightarrow> string \<times> int" where
  "get_id s g_id = (let g_id = g_id + 1 in (s @ str_int g_id, g_id))"

text \<open>Unpacking the result of \<^verbatim>\<open>rsplit\<close> into two names raises \<^verbatim>\<open>ValueError\<close> unless
  it has exactly two elements; the counter is then untouched.\<close>

definition parse_node_name :: "string \<Rightarrow> int \<Rightarrow> error + (NodeName \<times> int)" where
  "parse_node_name node_name g_id =
     (let full_node_name =
            (if \<not> startswith node_name ''/'' then ''/'' @ node_name else node_name)
      in case rsplit1 CHR ''/'' full_node_name of
           [ns, node_basename] \<Rightarrow>
             (let ns = (if ns = [] then ''/'' else ns);
                  (i, g_id) = get_id ''node_'' g_id
              in Inr (\<lparr>name = node_basename, namespace = ns,
                       full_name = full_node_name, id_nn = i\<rparr>, g_id))
         | _ \<Rightarrow> Inl ValueError)"

text \<open>\<^verbatim>\<open>get_node_names\<close>: the pairs come from the middleware and the hidden prefix from
  \<^verbatim>\<open>rclpy\<close>; both are arguments here. An identifier is allocated for each pair kept.\<close>

fun get_node_names :: "string \<Rightarrow> (string \<times> string) list \<Rightarrow> bool \<Rightarrow> int \<Rightarrow> NodeName list \<times> int" where
  "get_node_names hidden_prefix [] include_hidden_nodes g_id = ([], g_id)"
| "get_node_names hidden_prefix ((t0, t1) # ts) include_hidden_nodes g_id =
     (if include_hidden_nodes \<or> (t0 \<noteq> [] \<and> \<not> startswith t0 hidden_prefix)
      then (let (i, g_id) = get_id ''node_'' g_id;
                (rest, g_id) = get_node_names hidden_prefix ts include_hidden_nodes g_id
            in (\<lparr>name = t0, namespace = t1,
                 full_name = t1 @ (if endswith t1 ''/'' then [] else ''/'') @ t0,
                 id_nn = i\<rparr> # rest, g_id))
      else get_node_names hidden_prefix ts include_hidden_nodes g_id)"

text \<open>A process is a sequence of calls of the two functions that allocate identifiers
  (\<^verbatim>\<open>get_topics\<close> and the action helpers allocate through \<^verbatim>\<open>parse_node_name\<close>);
  \<open>run\<close> threads the counter through them and collects the identities they return. A call
  that raises returns none and leaves the counter as it was.\<close>

datatype call = ParseNodeName string | GetNodeNames "(string \<times> string) list" bool

fun run :: "string \<Rightarrow> call list \<Rightarrow> int \<Rightarrow> NodeName list \<times> int" where
  "run hidden_prefix [] g_id = ([], g_id)"
| "run hidden_prefix (ParseNodeName node_name # cs) g_id =
     (case parse_node_name node_name g_id of
        Inl e \<Rightarrow> run hidden_prefix cs g_id
      | Inr (nn, g_id) \<Rightarrow>
          (let (rest, g_id) = run hidden_prefix cs g_id in (nn # rest, g_id)))"
| "run hidden_prefix (GetNodeNames pairs include_hidden_nodes # cs) g_id =
     (let (nns, g_id) = get_node_names hidden_prefix pairs include_hidden_nodes g_id;
          (rest, g_id) = run hidden_prefix cs g_id
      in (nns @ rest, g_id))"

text \<open>The identities \<open>nns\<close> were allocated while the counter went from \<open>g\<close> to \<open>g'\<close>.\<close>

definition fresh_after :: "int \<Rightarrow> int \<Rightarrow> NodeName list \<Rightarrow> bool" where
  "fresh_after g g' nns \<longleftrightarrow>
     g \<le> g' \<and> distinct (map id_nn nns) \<and>
     (\<forall>nn \<in> set nns. \<exists>k. g < k \<and> k \<le> g' \<and> id_nn nn = ''node_'' @ str_int k)"

section \<open>The DOT writer\<close>

text \<open>
  The writer's only state is its sink \<^verbatim>\<open>_fp\<close>, here the text written so far. A method
  takes the sink and returns it with what it has appended, and the exception that
  stopped it, if any: what was written before a \<^verbatim>\<open>raise\<close> stays written.
\<close>

type_synonym writer = "string \<Rightarrow> error option \<times> string"

definition write' :: "string \<Rightarrow> writer" where
  "write' s fp = (None, fp @ s)"

definition raise :: "error \<Rightarrow> writer" where
  "raise e fp = (Some e, fp)"

text \<open>Statements one after the other, up to the first one that raises.\<close>

fun seq :: "writer list \<Rightarrow> writer" where
  "seq [] fp = (None, fp)"
| "seq (w # ws) fp = (case w fp of (None, fp') \<Rightarrow> seq ws fp' | (Some e, fp') \<Rightarrow> (Some e, fp'))"

text \<open>\<^verbatim>\<open>sorted_iteritems\<close>: a dictionary is the list of its items in insertion order, with
  distinct keys; each sorted key is looked up again in the dictionary.\<close>

definition sorted_iteritems :: "(string \<times> 'v) list \<Rightarrow> (string \<times> 'v) list" where
  "sorted_iteritems d =
     List.map_filter (\<lambda>key. map_option (\<lambda>v. (key, v)) (map_of d key)) (sort (map fst d))"

definition escape :: "string \<Rightarrow> string" where
  "escape s =
     (let s = replace BS [BS, BS] s;
          s = replace NL [BS, CHR ''n''] s;
          s = replace TAB [BS, CHR ''t''] s;
          s = replace DQ [BS, DQ] s
      in [DQ] @ s @ [DQ])"

text \<open>The two type tests of \<^verbatim>\<open>DotWriter.id\<close>: \<^verbatim>\<open>isinstance(id, (int, float))\<close>, which a
  \<^verbatim>\<open>bool\<close> passes, and \<^verbatim>\<open>isinstance(id, str)\<close>.\<close>

fun isinstance_int_float :: "pyval \<Rightarrow> bool" where
  "isinstance_int_float (PInt n) = True"
| "isinstance_int_float (PBool b) = True"
| "isinstance_int_float (PFloat r) = True"
| "isinstance_int_float v = False"

fun isinstance_str :: "pyval \<Rightarrow> bool" where
  "isinstance_str (PStr s) = True"
| "isinstance_str v = False"

text \<open>\<^verbatim>\<open>DotWriter.id\<close>: the text is computed first, \<^verbatim>\<open>str(id)\<close> for a number, and
  written last, so that nothing is written when the method raises.\<close>

definition id' :: "pyval \<Rightarrow> writer" where
  "id' v =
     (case v of
        PInt n \<Rightarrow> write' (str_int n)
      | PBool b \<Rightarrow> write' (str_bool b)
      | PFloat r \<Rightarrow> write' r
      | PStr s \<Rightarrow> (if isalnum s \<and> \<not> startswith s ''0x'' then write' s else write' (escape s))
      | _ \<Rightarrow> raise TypeError)"

definition key_value :: "string \<Rightarrow> pyval \<Rightarrow> writer" where
  "key_value key v = seq [id' (PStr key), write' ''='', id' v]"

fun attr_list_loop :: "bool \<Rightarrow> (string \<times> pyval) list \<Rightarrow> writer" where
  "attr_list_loop first [] = seq []"
| "attr_list_loop first ((nm, v) # items) =
     (if v = PNone then attr_list_loop first items
      else seq [if first then seq [] else write' '', '',
                key_value nm v,
                attr_list_loop False items])"

definition attr_list :: "(string \<times> pyval) list \<Rightarrow> writer" where
  "attr_list attrs =
     (if attrs = [] then seq []
      else seq [write' '' ['', attr_list_loop True (sorted_iteritems attrs), write' '']''])"

fun attr_stmts :: "(string \<times> pyval) list \<Rightarrow> writer" where
  "attr_stmts [] = seq []"
| "attr_stmts ((nm, v) # items) =
     (if v = PNone then attr_stmts items
      else seq [write' [TAB], key_value nm v, write' ('';'' @ [NL]), attr_stmts items])"

definition begin_graph :: "(string \<times> pyval) list \<Rightarrow> writer" where
  "begin_graph attrs = seq [write' (''digraph {'' @ [NL]), attr_stmts (sorted_iteritems attrs)]"

definition end_graph :: writer where
  "end_graph = write' (''}'' @ [NL])"

definition begin_subgraph :: "pyval \<Rightarrow> (string \<times> pyval) list \<Rightarrow> writer" where
  "begin_subgraph subgraph attrs =
     seq [write' ''subgraph '', id' subgraph, write' ('' {'' @ [NL]),
          attr_stmts (sorted_iteritems attrs)]"

definition end_subgraph :: writer where
  "end_subgraph = write' (''}'' @ [NL])"

definition attr :: "string \<Rightarrow> (string \<times> pyval) list \<Rightarrow> writer" where
  "attr what attrs = seq [write' [TAB], write' what, attr_list attrs, write' ('';'' @ [NL])]"

definition node :: "pyval \<Rightarrow> (string \<times> pyval) list \<Rightarrow> writer" where
  "node n attrs = seq [write' [TAB], id' n, attr_list attrs, write' ('';'' @ [NL])]"

definition edge :: "pyval \<Rightarrow> pyval \<Rightarrow> (string \<times> pyval) list \<Rightarrow> writer" where
  "edge src dst attrs =
     seq [write' [TAB], id' src, write' '' -> '', id' dst, attr_list attrs, write' ('';'' @ [NL])]"

subsection \<open>\<^verbatim>\<open>DotWriter.color\<close>\<close>




section \<open>Readings of the specification\<close>




section \<open>Evaluation\<close>

lemma digit_char_simps [simp]:
  "digit_char 0 = CHR ''0''" "digit_char 1 = CHR ''1''" "digit_char 2 = CHR ''2''"
  "digit_char 3 = CHR ''3''" "digit_char 4 = CHR ''4''" "digit_char 5 = CHR ''5''"
  "digit_char 6 = CHR ''6''" "digit_char 7 = CHR ''7''" "digit_char 8 = CHR ''8''"
  "digit_char 9 = CHR ''9''" "digit_char 10 = CHR ''a''" "digit_char 11 = CHR ''b''"
  "digit_char 12 = CHR ''c''" "digit_char 13 = CHR ''d''" "digit_char 14 = CHR ''e''"
  "digit_char 15 = CHR ''f''" "digit_char (Suc 0) = CHR ''1''"
  by (simp_all add: digit_char_def)

subsection \<open>Splitting at the last separator, decimal digits\<close>

lemma rsplit1_no_sep: "sep \<notin> set s \<Longrightarrow> rsplit1 sep s = [s]"
proof -
  assume "sep \<notin> set s"
  then have "dropWhile (\<lambda>c. c \<noteq> sep) (rev s) = []"
    by (auto simp: dropWhile_eq_Nil_conv)
  then show ?thesis unfolding rsplit1_def Let_def by (simp only: list.case)
qed

lemma rsplit1_sep:
  assumes "sep \<in> set s"
  shows "\<exists>a b. rsplit1 sep s = [a, b] \<and> s = a @ sep # b \<and> sep \<notin> set b"
proof -
  let ?P = "\<lambda>c. c \<noteq> sep"
  let ?r = "rev s"
  from assms have "dropWhile ?P ?r \<noteq> []"
    by (simp add: dropWhile_eq_Nil_conv)
  then obtain x before where d: "dropWhile ?P ?r = x # before"
    by (cases "dropWhile ?P ?r") auto
  have "\<not> ?P (hd (dropWhile ?P ?r))"
    using \<open>dropWhile ?P ?r \<noteq> []\<close> by (rule hd_dropWhile)
  with d have x: "x = sep" by simp
  have "?r = takeWhile ?P ?r @ dropWhile ?P ?r" by simp
  with d x have "?r = takeWhile ?P ?r @ sep # before" by simp
  then have "rev ?r = rev (takeWhile ?P ?r @ sep # before)" by (rule arg_cong)
  then have s: "s = rev before @ sep # rev (takeWhile ?P ?r)" by simp
  have n: "sep \<notin> set (rev (takeWhile ?P ?r))"
    using set_takeWhileD [of sep ?P ?r] by auto
  have "rsplit1 sep s = [rev before, rev (takeWhile ?P ?r)]"
    using d by (simp add: rsplit1_def Let_def)
  with s n show ?thesis by blast
qed

lemma rsplit1_length: "length (rsplit1 sep s) = 2 \<longleftrightarrow> sep \<in> set s"
proof (cases "sep \<in> set s")
  case True
  with rsplit1_sep [of sep s] show ?thesis by auto
next
  case False
  then show ?thesis by (simp add: rsplit1_no_sep)
qed

lemma slash_in_absolute: "CHR ''/'' \<in> set (if \<not> startswith s ''/'' then ''/'' @ s else s)"
  by (cases s) (auto simp: startswith_def)

lemma parse_node_name_eq:
  "\<exists>ns b. (if \<not> startswith s ''/'' then ''/'' @ s else s) = ns @ ''/'' @ b \<and> CHR ''/'' \<notin> set b \<and>
     parse_node_name s g =
       Inr (\<lparr>name = b, namespace = (if ns = [] then ''/'' else ns),
             full_name = ns @ ''/'' @ b, id_nn = ''node_'' @ str_int (g + 1)\<rparr>, g + 1)"
proof -
  let ?full = "if \<not> startswith s ''/'' then ''/'' @ s else s"
  from rsplit1_sep [OF slash_in_absolute [of s]]
  obtain a b where r: "rsplit1 CHR ''/'' ?full = [a, b]" and f: "?full = a @ CHR ''/'' # b"
    and n: "CHR ''/'' \<notin> set b" by blast
  have "parse_node_name s g =
       Inr (\<lparr>name = b, namespace = (if a = [] then ''/'' else a),
             full_name = a @ ''/'' @ b, id_nn = ''node_'' @ str_int (g + 1)\<rparr>, g + 1)"
    unfolding parse_node_name_def Let_def r using f by (simp add: get_id_def Let_def)
  with f n show ?thesis by auto
qed

lemma digit_char_inj: "a < 16 \<Longrightarrow> b < 16 \<Longrightarrow> digit_char a = digit_char b \<Longrightarrow> a = b"
proof -
  assume a: "a < 16" and b: "b < 16" and e: "digit_char a = digit_char b"
  have d: "distinct ''0123456789abcdef''" by simp
  have l: "length ''0123456789abcdef'' = 16" by simp
  from e have "''0123456789abcdef'' ! a = ''0123456789abcdef'' ! b" by (simp only: digit_char_def)
  with d a b l show "a = b" by (simp only: nth_eq_iff_index_eq)
qed

lemma digits_nonempty: "digits b n \<noteq> []"
  by (subst digits.simps) simp

lemma digits10_inj: "digits 10 n = digits 10 m \<Longrightarrow> n = m"
proof (induction n arbitrary: m rule: less_induct)
  case (less n)
  show ?case
  proof (cases "n < 10")
    case n: True
    show ?thesis
    proof (cases "m < 10")
      case True
      with n less.prems have "digit_char n = digit_char m"
        by (simp add: digits.simps [of 10 n] digits.simps [of 10 m])
      with n True show ?thesis by (intro digit_char_inj) auto
    next
      case False
      with n less.prems digits_nonempty [of 10 "m div 10"] show ?thesis
        by (simp add: digits.simps [of 10 n] digits.simps [of 10 m])
    qed
  next
    case n: False
    show ?thesis
    proof (cases "m < 10")
      case True
      with n less.prems digits_nonempty [of 10 "n div 10"] show ?thesis
        by (simp add: digits.simps [of 10 n] digits.simps [of 10 m])
    next
      case False
      with n less.prems have e: "digits 10 (n div 10) = digits 10 (m div 10)"
        and c: "digit_char (n mod 10) = digit_char (m mod 10)"
        by (simp_all add: digits.simps [of 10 n] digits.simps [of 10 m])
      from n have "n div 10 < n" by simp
      from less.IH [OF this e] have "n div 10 = m div 10" .
      moreover from c have "n mod 10 = m mod 10" by (intro digit_char_inj) auto
      ultimately show ?thesis by (metis div_mult_mod_eq)
    qed
  qed
qed

lemma digits_hd: "hd (digits 10 n) \<noteq> CHR ''-''"
proof (induction n rule: less_induct)
  case (less n)
  show ?case
  proof (cases "n < 10")
    case True
    then have "n \<in> {0,1,2,3,4,5,6,7,8,9}" by auto
    then show ?thesis by (auto simp: digits.simps [of 10 n] digit_char_def)
  next
    case False
    then have "n div 10 < n" by simp
    from less.IH [OF this] digits_nonempty [of 10 "n div 10"] False show ?thesis
      by (simp add: digits.simps [of 10 n])
  qed
qed

lemma str_int_inj: "str_int i = str_int j \<Longrightarrow> i = j"
proof -
  assume e: "str_int i = str_int j"
  have h: "\<And>n m. CHR ''-'' # digits 10 n \<noteq> digits 10 m"
    using digits_hd digits_nonempty by (metis list.sel(1))
  show "i = j"
  proof (cases "i < 0")
    case i: True
    show ?thesis
    proof (cases "j < 0")
      case True
      with i e have "nat (- i) = nat (- j)" by (auto simp: str_int_def dest: digits10_inj)
      with i True show ?thesis by simp
    next
      case False
      with i e h show ?thesis by (auto simp: str_int_def)
    qed
  next
    case i: False
    show ?thesis
    proof (cases "j < 0")
      case True
      with i e h [of "nat (- j)" "nat i"] show ?thesis by (auto simp: str_int_def)
    next
      case False
      with i e have "nat i = nat j" by (auto simp: str_int_def dest: digits10_inj)
      with i False show ?thesis by simp
    qed
  qed
qed
subsection \<open>Identifiers allocated by a process\<close>

lemma fresh_after_Nil: "fresh_after g g []"
  by (simp add: fresh_after_def)

lemma node_id_inj: "''node_'' @ str_int i = ''node_'' @ str_int j \<Longrightarrow> i = j"
  by (simp add: str_int_inj)

lemma fresh_after_append:
  assumes "fresh_after g g' xs" and "fresh_after g' g'' ys"
  shows "fresh_after g g'' (xs @ ys)"
proof -
  have "id_nn x \<noteq> id_nn y" if "x \<in> set xs" and "y \<in> set ys" for x y
  proof -
    from assms(1) that(1) obtain k where k: "k \<le> g'" "id_nn x = ''node_'' @ str_int k"
      by (auto simp: fresh_after_def)
    from assms(2) that(2) obtain l where l: "g' < l" "id_nn y = ''node_'' @ str_int l"
      by (auto simp: fresh_after_def)
    from k(1) l(1) have "k \<noteq> l" by simp
    with k(2) l(2) show ?thesis using node_id_inj [of k l] by auto
  qed
  then have "set (map id_nn xs) \<inter> set (map id_nn ys) = {}" by auto
  moreover have "\<exists>k. g < k \<and> k \<le> g'' \<and> id_nn nn = ''node_'' @ str_int k"
    if "nn \<in> set xs \<union> set ys" for nn
  proof (cases "nn \<in> set xs")
    case True
    with assms(1) obtain k where "g < k" "k \<le> g'" "id_nn nn = ''node_'' @ str_int k"
      unfolding fresh_after_def by blast
    moreover from assms(2) have "g' \<le> g''" by (simp add: fresh_after_def)
    ultimately have "g < k \<and> k \<le> g'' \<and> id_nn nn = ''node_'' @ str_int k" by simp
    then show ?thesis by (rule exI)
  next
    case False
    with that have "nn \<in> set ys" by simp
    with assms(2) obtain k where "g' < k" "k \<le> g''" "id_nn nn = ''node_'' @ str_int k"
      unfolding fresh_after_def by blast
    moreover from assms(1) have "g \<le> g'" by (simp add: fresh_after_def)
    ultimately have "g < k \<and> k \<le> g'' \<and> id_nn nn = ''node_'' @ str_int k" by simp
    then show ?thesis by (rule exI)
  qed
  moreover have "g \<le> g''" "distinct (map id_nn xs)" "distinct (map id_nn ys)"
    using assms by (simp_all add: fresh_after_def)
  ultimately show ?thesis unfolding fresh_after_def by simp
qed

lemma fresh_after_single:
  "fresh_after g (g + 1) [\<lparr>name = a, namespace = b, full_name = c, id_nn = ''node_'' @ str_int (g + 1)\<rparr>]"
proof -
  have "g < g + 1 \<and> g + 1 \<le> g + 1 \<and> str_int (g + 1) = str_int (g + 1)" by simp
  then have "\<exists>k. g < k \<and> k \<le> g + 1 \<and> str_int (g + 1) = str_int k" by (rule exI)
  then show ?thesis by (simp add: fresh_after_def)
qed

lemma get_node_names_fresh:
  "fresh_after g (snd (get_node_names hp pairs ih g)) (fst (get_node_names hp pairs ih g))"
proof (induction pairs arbitrary: g)
  case Nil
  show ?case by (simp add: fresh_after_Nil)
next
  case (Cons t ts)
  obtain t0 t1 where t: "t = (t0, t1)" by (cases t)
  show ?case
  proof (cases "ih \<or> (t0 \<noteq> [] \<and> \<not> startswith t0 hp)")
    case True
    let ?nn = "\<lparr>name = t0, namespace = t1,
                 full_name = t1 @ (if endswith t1 ''/'' then [] else ''/'') @ t0,
                 id_nn = ''node_'' @ str_int (g + 1)\<rparr>"
    let ?r = "get_node_names hp ts ih (g + 1)"
    from True have e: "get_node_names hp (t # ts) ih g = (?nn # fst ?r, snd ?r)"
      unfolding t by (simp add: get_id_def Let_def split: prod.splits)
    have "fresh_after g (snd ?r) ([?nn] @ fst ?r)"
      using fresh_after_single Cons.IH [of "g + 1"] by (rule fresh_after_append)
    with e show ?thesis by simp
  next
    case False
    then have "get_node_names hp (t # ts) ih g = get_node_names hp ts ih g"
      unfolding t by auto
    with Cons.IH [of g] show ?thesis by simp
  qed
qed

lemma run_fresh: "fresh_after g (snd (run hp cs g)) (fst (run hp cs g))"
proof (induction cs arbitrary: g)
  case Nil
  show ?case by (simp add: fresh_after_Nil)
next
  case (Cons c cs)
  show ?case
  proof (cases c)
    case (ParseNodeName s)
    from parse_node_name_eq [of s g] obtain ns b where
      p: "parse_node_name s g =
       Inr (\<lparr>name = b, namespace = (if ns = [] then ''/'' else ns),
             full_name = ns @ ''/'' @ b, id_nn = ''node_'' @ str_int (g + 1)\<rparr>, g + 1)"
      by blast
    let ?nn = "\<lparr>name = b, namespace = (if ns = [] then ''/'' else ns),
             full_name = ns @ ''/'' @ b, id_nn = ''node_'' @ str_int (g + 1)\<rparr>"
    let ?r = "run hp cs (g + 1)"
    have e: "run hp (c # cs) g = (?nn # fst ?r, snd ?r)"
      unfolding ParseNodeName by (simp add: p split: prod.splits)
    have "fresh_after g (snd ?r) ([?nn] @ fst ?r)"
      using fresh_after_single Cons.IH [of "g + 1"] by (rule fresh_after_append)
    with e show ?thesis by simp
  next
    case (GetNodeNames pairs ih)
    let ?a = "get_node_names hp pairs ih g"
    let ?r = "run hp cs (snd ?a)"
    have e: "run hp (c # cs) g = (fst ?a @ fst ?r, snd ?r)"
      unfolding GetNodeNames by (simp add: split: prod.splits)
    have "fresh_after g (snd ?r) (fst ?a @ fst ?r)"
      using get_node_names_fresh Cons.IH by (rule fresh_after_append)
    with e show ?thesis by simp
  qed
qed

lemma parse_node_name_id:
  "\<exists>nn. parse_node_name s g = Inr (nn, g + 1) \<and> id_nn nn = ''node_'' @ str_int (g + 1)"
proof -
  from parse_node_name_eq [of s g] obtain ns b where
    p: "parse_node_name s g =
       Inr (\<lparr>name = b, namespace = (if ns = [] then ''/'' else ns),
             full_name = ns @ ''/'' @ b, id_nn = ''node_'' @ str_int (g + 1)\<rparr>, g + 1)"
    by blast
  show ?thesis unfolding p by simp
qed

subsection \<open>The writer\<close>


lemma seq_single: "seq [w] fp = w fp"
  by (cases "w fp") (auto split: option.splits)

lemma seq_write: "seq (write' s # ws) fp = seq ws (fp @ s)"
  by (simp add: write'_def)

lemma id'_ok:
  "isinstance_int_float v \<or> isinstance_str v \<Longrightarrow> fst (id' v fp) = None"
  by (cases v) (simp_all add: id'_def write'_def raise_def)

lemma id'_unsupported:
  "\<not> isinstance_int_float v \<Longrightarrow> \<not> isinstance_str v \<Longrightarrow> id' v fp = (Some TypeError, fp)"
  by (cases v) (simp_all add: id'_def write'_def raise_def)

lemma id'_TypeError_iff:
  "fst (id' v fp) = Some TypeError \<longleftrightarrow> \<not> isinstance_int_float v \<and> \<not> isinstance_str v"
  by (cases v) (simp_all add: id'_def write'_def raise_def)

lemma id'_PStr_ok: "id' (PStr k) fp = (None, snd (id' (PStr k) fp))"
  by (simp add: id'_def write'_def)

lemma key_value_unsupported:
  "\<not> isinstance_int_float v \<Longrightarrow> \<not> isinstance_str v \<Longrightarrow>
   key_value k v fp = (Some TypeError, snd (id' (PStr k) fp) @ ''='')"
proof -
  assume a: "\<not> isinstance_int_float v" "\<not> isinstance_str v"
  obtain fp' where k: "id' (PStr k) fp = (None, fp')"
    using id'_PStr_ok [of k fp] by blast
  from a have "id' v (fp' @ ''='') = (Some TypeError, fp' @ ''='')"
    by (rule id'_unsupported)
  with k show ?thesis by (simp add: key_value_def write'_def)
qed

lemma key_value_error: "fst (key_value k v fp) = None \<or> fst (key_value k v fp) = Some TypeError"
proof (cases "isinstance_int_float v \<or> isinstance_str v")
  case True
  obtain fp' where k: "id' (PStr k) fp = (None, fp')"
    using id'_PStr_ok [of k fp] by blast
  from True have "fst (id' v (fp' @ ''='')) = None"
    by (rule id'_ok)
  then obtain fp'' where "id' v (fp' @ ''='') = (None, fp'')"
    by (cases "id' v (fp' @ ''='')") simp
  with k show ?thesis by (simp add: key_value_def write'_def)
next
  case False
  then show ?thesis by (simp add: key_value_unsupported)
qed

lemma seq_error_first:
  "fst (w fp) = Some e \<Longrightarrow> fst (seq (w # ws) fp) = Some e"
  by (cases "w fp") (auto split: option.splits)

lemma attr_list_loop_unsupported:
  "(k, v) \<in> set items \<Longrightarrow> v \<noteq> PNone \<Longrightarrow> \<not> isinstance_int_float v \<Longrightarrow> \<not> isinstance_str v \<Longrightarrow>
   fst (attr_list_loop first items fp) = Some TypeError"
proof (induction items arbitrary: first fp)
  case Nil
  then show ?case by simp
next
  case (Cons item items)
  obtain nm x where item: "item = (nm, x)" by (cases item)
  show ?case
  proof (cases "x = PNone")
    case True
    with Cons.prems item have "(k, v) \<in> set items" by auto
    from Cons.IH [OF this Cons.prems(2-4)] True item show ?thesis by simp
  next
    case x: False
    let ?pre = "if first then seq [] else write' '', ''"
    obtain fp1 where p: "?pre fp = (None, fp1)" by (cases first) (simp_all add: write'_def)
    show ?thesis
    proof (cases "fst (key_value nm x fp1)")
      case None
      then obtain fp2 where kv: "key_value nm x fp1 = (None, fp2)"
        by (cases "key_value nm x fp1") simp
      have nx: "(nm, x) \<noteq> (k, v)"
      proof
        assume "(nm, x) = (k, v)"
        with Cons.prems(3,4) have "key_value nm x fp1 = (Some TypeError, snd (id' (PStr nm) fp1) @ ''='')"
          by (simp add: key_value_unsupported)
        with kv show False by simp
      qed
      with Cons.prems(1) item have "(k, v) \<in> set items" by auto
      from Cons.IH [OF this Cons.prems(2-4), of False fp2]
      show ?thesis unfolding item using x p kv
        by (auto simp: seq_single split: if_splits prod.splits option.splits)
    next
      case (Some e)
      with key_value_error [of nm x fp1] have e: "fst (key_value nm x fp1) = Some TypeError" by auto
      then obtain fp2 where kv: "key_value nm x fp1 = (Some TypeError, fp2)"
        by (cases "key_value nm x fp1") simp
      show ?thesis unfolding item using x p kv
        by (auto split: if_splits prod.splits option.splits)
    qed
  qed
qed

subsection \<open>Sorted items\<close>

lemma map_filter_lookup_keys:
  "set ks \<subseteq> fst ` set d \<Longrightarrow>
   map fst (List.map_filter (\<lambda>key. map_option (\<lambda>v. (key, v)) (map_of d key)) ks) = ks"
proof (induction ks)
  case Nil
  show ?case by (simp add: List.map_filter_simps)
next
  case (Cons k ks)
  then have "k \<in> fst ` set d" by simp
  then obtain v where "map_of d k = Some v"
    by (metis domD dom_map_of_conv_image_fst)
  with Cons show ?case by (simp add: List.map_filter_simps)
qed

lemma set_map_filter: "set (List.map_filter f xs) = {y. \<exists>x \<in> set xs. f x = Some y}"
  by (induction xs) (auto simp: List.map_filter_simps split: option.splits)

lemma sorted_iteritems_keys: "map fst (sorted_iteritems d) = sort (map fst d)"
  unfolding sorted_iteritems_def by (rule map_filter_lookup_keys) simp

lemma sorted_iteritems_set:
  assumes "distinct (map fst d)"
  shows "set (sorted_iteritems d) = set d"
proof (rule set_eqI)
  fix x :: "string \<times> 'a"
  obtain k v where x: "x = (k, v)" by (cases x)
  let ?f = "\<lambda>key. map_option (\<lambda>v. (key, v)) (map_of d key)"
  have "x \<in> set (sorted_iteritems d) \<longleftrightarrow> (\<exists>key \<in> fst ` set d. ?f key = Some x)"
    unfolding sorted_iteritems_def by (simp add: set_map_filter)
  also have "\<dots> \<longleftrightarrow> map_of d k = Some v"
  proof
    assume "\<exists>key \<in> fst ` set d. ?f key = Some x"
    then show "map_of d k = Some v" unfolding x by auto
  next
    assume m: "map_of d k = Some v"
    then have "(k, v) \<in> set d" by (rule map_of_SomeD)
    then have "k \<in> fst ` set d" by (rule rev_image_eqI) simp
    moreover from m have "?f k = Some x" unfolding x by simp
    ultimately show "\<exists>key \<in> fst ` set d. ?f key = Some x" by (rule bexI [rotated])
  qed
  also have "\<dots> \<longleftrightarrow> (k, v) \<in> set d"
    using assms by simp
  finally show "x \<in> set (sorted_iteritems d) \<longleftrightarrow> x \<in> set d" unfolding x .
qed

lemma sorted_iteritems_order_irrelevant:
  assumes "distinct (map fst a)" and "distinct (map fst b)" and "set a = set b"
  shows "sorted_iteritems a = sorted_iteritems b"
proof -
  from assms have m: "map_of a = map_of b"
    by (simp add: map_of_inject_set)
  from assms(3) have "set (map fst a) = set (map fst b)" by simp
  with assms(1,2) have "mset (map fst a) = mset (map fst b)"
    using set_eq_iff_mset_eq_distinct by blast
  then have "sort (map fst a) = sort (map fst b)"
    by (intro properties_for_sort) simp_all
  with m show ?thesis by (simp add: sorted_iteritems_def)
qed

subsection \<open>Escaping and decimal digits\<close>






subsection \<open>Colours\<close>










lemmas writer_eval =
  begin_graph_def begin_subgraph_def end_graph_def end_subgraph_def node_def edge_def attr_def
  attr_list_def sorted_iteritems_def List.map_filter_simps key_value_def id'_def write'_def
  raise_def isalnum_def isalnum_char_def startswith_def escape_def replace_def str_bool_def


section \<open>The claims\<close>

text \<open>C2: the calls \<^verbatim>\<open>begin_graph()\<close>, \<^verbatim>\<open>node("n1", label="hello world", color=None)\<close>,
  \<^verbatim>\<open>end_graph()\<close> on an empty sink write exactly the graph header, the statement
  \<^verbatim>\<open>n1 [label="hello world"];\<close> indented by one tab, and the closing brace, each line
  ended by a newline; the null attribute leaves no trace.\<close>

theorem end_to_end_output:
  "seq [begin_graph [],
        node (PStr ''n1'') [(''label'', PStr ''hello world''), (''color'', PNone)],
        end_graph] []
   = (None, ''digraph {'' @ [NL] @ [TAB] @ ''n1 [label='' @ [DQ] @ ''hello world'' @ [DQ]
            @ ''];'' @ [NL] @ ''}'' @ [NL])"
  by (simp add: begin_graph_def node_def end_graph_def attr_list_def sorted_iteritems_def
      List.map_filter_simps key_value_def id'_def write'_def isalnum_def isalnum_char_def
      startswith_def escape_def replace_def)

text \<open>C5: for every name, \<^verbatim>\<open>parse_node_name\<close> puts a slash in front unless there is one,
  and splits the result at its last slash (the basename has no slash) into namespace and
  basename, the namespace being \<^verbatim>\<open>/\<close> when the left part is empty. So \<^verbatim>\<open>foo\<close> gives
  \<^verbatim>\<open>/\<close> and \<^verbatim>\<open>foo\<close>, \<^verbatim>\<open>/a/b\<close> gives \<^verbatim>\<open>/a\<close> and \<^verbatim>\<open>b\<close>, \<^verbatim>\<open>/a/b/c\<close> gives \<^verbatim>\<open>/a/b\<close> and
  \<^verbatim>\<open>c\<close>.\<close>

theorem parse_node_name_splits_at_last_slash:
  "(\<exists>ns b. (if \<not> startswith s ''/'' then ''/'' @ s else s) = ns @ ''/'' @ b \<and>
       CHR ''/'' \<notin> set b \<and>
       parse_node_name s g =
         Inr (\<lparr>name = b, namespace = (if ns = [] then ''/'' else ns),
               full_name = ns @ ''/'' @ b, id_nn = ''node_'' @ str_int (g + 1)\<rparr>, g + 1)) \<and>
   parse_node_name ''foo'' g =
     Inr (\<lparr>name = ''foo'', namespace = ''/'', full_name = ''/foo'',
           id_nn = ''node_'' @ str_int (g + 1)\<rparr>, g + 1) \<and>
   parse_node_name ''/a/b'' g =
     Inr (\<lparr>name = ''b'', namespace = ''/a'', full_name = ''/a/b'',
           id_nn = ''node_'' @ str_int (g + 1)\<rparr>, g + 1) \<and>
   parse_node_name ''/a/b/c'' g =
     Inr (\<lparr>name = ''c'', namespace = ''/a/b'', full_name = ''/a/b/c'',
           id_nn = ''node_'' @ str_int (g + 1)\<rparr>, g + 1)"
proof -
  have "parse_node_name ''foo'' g =
     Inr (\<lparr>name = ''foo'', namespace = ''/'', full_name = ''/foo'',
           id_nn = ''node_'' @ str_int (g + 1)\<rparr>, g + 1)"
    by (simp add: parse_node_name_def startswith_def rsplit1_def get_id_def Let_def)
  moreover have "parse_node_name ''/a/b'' g =
     Inr (\<lparr>name = ''b'', namespace = ''/a'', full_name = ''/a/b'',
           id_nn = ''node_'' @ str_int (g + 1)\<rparr>, g + 1)"
    by (simp add: parse_node_name_def startswith_def rsplit1_def get_id_def Let_def)
  moreover have "parse_node_name ''/a/b/c'' g =
     Inr (\<lparr>name = ''c'', namespace = ''/a/b'', full_name = ''/a/b/c'',
           id_nn = ''node_'' @ str_int (g + 1)\<rparr>, g + 1)"
    by (simp add: parse_node_name_def startswith_def rsplit1_def get_id_def Let_def)
  ultimately show ?thesis using parse_node_name_eq [of s g] by blast
qed

text \<open>C9: the unpacking in \<^verbatim>\<open>parse_node_name\<close> raises (\<^verbatim>\<open>ValueError\<close>) only when
  \<^verbatim>\<open>rsplit\<close> returns other than two parts, which is exactly when the prefixed name has
  no slash; the prefixed name always has one, so for every string and every state of the
  counter the function returns an identity and raises nothing.\<close>

theorem parse_node_name_total:
  "(length (rsplit1 CHR ''/'' full) = 2 \<longleftrightarrow> CHR ''/'' \<in> set full) \<and>
   CHR ''/'' \<in> set (if \<not> startswith s ''/'' then ''/'' @ s else s) \<and>
   (\<exists>nn. parse_node_name s g = Inr (nn, g + 1)) \<and>
   parse_node_name s g \<noteq> Inl e"
proof -
  from parse_node_name_id [of s g] obtain nn where p: "parse_node_name s g = Inr (nn, g + 1)"
    by blast
  then have "parse_node_name s g \<noteq> Inl e" by simp
  with p rsplit1_length [of "CHR ''/''" full] slash_in_absolute [of s] show ?thesis
    by blast
qed

text \<open>C8: every allocation increments the counter and names the identifier after the
  new value, so the counter never decreases and the identifiers of all the identities
  allocated by a process, whatever its calls and the starting value of the counter, are
  pairwise distinct; each call of \<^verbatim>\<open>parse_node_name\<close> allocates \<^verbatim>\<open>node_\<close> followed by
  the incremented counter, also for the same name twice.\<close>

theorem identifiers_never_reused:
  "distinct (map id_nn (fst (run hp cs g))) \<and> g \<le> snd (run hp cs g) \<and>
   get_id p g = (p @ str_int (g + 1), g + 1) \<and>
   (\<exists>nn. parse_node_name s g = Inr (nn, g + 1) \<and> id_nn nn = ''node_'' @ str_int (g + 1)) \<and>
   (\<exists>n1 n2. run hp [ParseNodeName s, ParseNodeName s] g = ([n1, n2], g + 2) \<and> id_nn n1 \<noteq> id_nn n2)"
proof -
  have 1: "distinct (map id_nn (fst (run hp cs g))) \<and> g \<le> snd (run hp cs g)"
    using run_fresh [of g hp cs] by (simp add: fresh_after_def)
  have 2: "get_id p g = (p @ str_int (g + 1), g + 1)"
    by (simp add: get_id_def Let_def)
  have 3:
    "\<exists>nn. parse_node_name s g = Inr (nn, g + 1) \<and> id_nn nn = ''node_'' @ str_int (g + 1)"
    by (rule parse_node_name_id)
  from parse_node_name_id [of s g] obtain n1 where
    a: "parse_node_name s g = Inr (n1, g + 1)" "id_nn n1 = ''node_'' @ str_int (g + 1)" by blast
  from parse_node_name_id [of s "g + 1"] obtain n2 where
    b: "parse_node_name s (g + 1) = Inr (n2, g + 1 + 1)"
       "id_nn n2 = ''node_'' @ str_int (g + 1 + 1)"
    by blast
  have "g + 1 \<noteq> g + 1 + 1" by simp
  then have "id_nn n1 \<noteq> id_nn n2"
    using a(2) b(2) node_id_inj [of "g + 1" "g + 1 + 1"] by auto
  moreover have "run hp [ParseNodeName s, ParseNodeName s] g = ([n1, n2], g + 2)"
    by (simp add: a b(1))
  ultimately have 4: "\<exists>n1 n2. run hp [ParseNodeName s, ParseNodeName s] g = ([n1, n2], g + 2) \<and> id_nn n1 \<noteq> id_nn n2"
    by blast
  from 1 2 3 4 show ?thesis by blast
qed

text \<open>C6: a dictionary given in two insertion orders (the same items, distinct keys) is
  iterated in one and the same order, that of the sorted keys, and every method that takes
  attributes writes the same text for both.\<close>

theorem attribute_order_irrelevant:
  assumes "distinct (map fst a)" and "distinct (map fst b)" and "set a = set b"
  shows "sorted (map fst (sorted_iteritems a)) \<and> set (sorted_iteritems a) = set a \<and>
         sorted_iteritems a = sorted_iteritems b \<and>
         attr_list a = attr_list b \<and> attr what a = attr what b \<and> node n a = node n b \<and>
         edge src dst a = edge src dst b \<and> begin_graph a = begin_graph b \<and>
         begin_subgraph sg a = begin_subgraph sg b"
proof -
  have s: "sorted_iteritems a = sorted_iteritems b"
    using assms by (rule sorted_iteritems_order_irrelevant)
  from assms(3) have e: "a = [] \<longleftrightarrow> b = []"
    by (metis set_empty)
  from s e have l: "attr_list a = attr_list b" by (simp add: attr_list_def)
  have "sorted (map fst (sorted_iteritems a))" by (simp add: sorted_iteritems_keys)
  moreover have "set (sorted_iteritems a) = set a" using assms(1) by (rule sorted_iteritems_set)
  moreover have "attr what a = attr what b" by (simp only: attr_def l)
  moreover have "node n a = node n b" by (simp only: node_def l)
  moreover have "edge src dst a = edge src dst b" by (simp only: edge_def l)
  moreover have "begin_graph a = begin_graph b" by (simp only: begin_graph_def s)
  moreover have "begin_subgraph sg a = begin_subgraph sg b" by (simp only: begin_subgraph_def s)
  ultimately show ?thesis using s l by blast
qed


theorem attribute_order_irrelevant_witness:
  "distinct (map fst [(''label'', PStr ''hello world''), (''color'', PNone), (''shape'', PStr ''box'')]) \<and>
   distinct (map fst [(''shape'', PStr ''box''), (''color'', PNone), (''label'', PStr ''hello world'')]) \<and>
   set [(''label'', PStr ''hello world''), (''color'', PNone), (''shape'', PStr ''box'')] =
   set [(''shape'', PStr ''box''), (''color'', PNone), (''label'', PStr ''hello world'')] \<and>
   node (PStr ''n1'') [(''label'', PStr ''hello world''), (''color'', PNone), (''shape'', PStr ''box'')] =
   node (PStr ''n1'') [(''shape'', PStr ''box''), (''color'', PNone), (''label'', PStr ''hello world'')] \<and>
   node (PStr ''n1'') [(''shape'', PStr ''box''), (''color'', PNone), (''label'', PStr ''hello world'')] []
     = (None, [TAB] @ ''n1 [label='' @ [DQ] @ ''hello world'' @ [DQ] @ '', shape=box];'' @ [NL])"
proof -
  let ?a = "[(''label'', PStr ''hello world''), (''color'', PNone), (''shape'', PStr ''box'')]"
  let ?b = "[(''shape'', PStr ''box''), (''color'', PNone), (''label'', PStr ''hello world'')]"
  have 1: "distinct (map fst ?a)" by simp
  have 2: "distinct (map fst ?b)" by simp
  have 3: "set ?a = set ?b" by auto
  from attribute_order_irrelevant [OF 1 2 3, of _ "PStr ''n1''"]
  have 4: "node (PStr ''n1'') ?a = node (PStr ''n1'') ?b" by blast
  have 5: "node (PStr ''n1'') ?b []
     = (None, [TAB] @ ''n1 [label='' @ [DQ] @ ''hello world'' @ [DQ] @ '', shape=box];'' @ [NL])"
    by (simp add: writer_eval)
  from 1 2 3 4 5 show ?thesis by blast
qed




text \<open>C7: \<^verbatim>\<open>DotWriter.id\<close> raises \<^verbatim>\<open>TypeError\<close> exactly for a value that is neither a
  number nor a string, and returns normally for every number and string. The exception
  leaves the method at once: the sink holds what was written before it and nothing
  after, in \<^verbatim>\<open>id\<close>, \<^verbatim>\<open>key_value\<close>, \<^verbatim>\<open>node\<close>, \<^verbatim>\<open>edge\<close> and \<^verbatim>\<open>begin_subgraph\<close>, and an
  attribute of such a type (other than \<^verbatim>\<open>None\<close>, which is skipped) makes \<^verbatim>\<open>attr_list\<close>,
  \<^verbatim>\<open>node\<close> and \<^verbatim>\<open>attr\<close> raise it.\<close>

theorem unsupported_type_raises:
  "(fst (id' v fp) = Some TypeError \<longleftrightarrow> \<not> isinstance_int_float v \<and> \<not> isinstance_str v) \<and>
   (fst (id' v fp) = None \<longleftrightarrow> isinstance_int_float v \<or> isinstance_str v) \<and>
   (\<not> isinstance_int_float v \<and> \<not> isinstance_str v \<longrightarrow>
      id' v fp = (Some TypeError, fp) \<and>
      key_value k v fp = (Some TypeError, snd (id' (PStr k) fp) @ ''='') \<and>
      node v attrs fp = (Some TypeError, fp @ [TAB]) \<and>
      edge v dst attrs fp = (Some TypeError, fp @ [TAB]) \<and>
      begin_subgraph v attrs fp = (Some TypeError, fp @ ''subgraph '')) \<and>
   (distinct (map fst attrs) \<and> (k, v) \<in> set attrs \<and> v \<noteq> PNone \<and>
    \<not> isinstance_int_float v \<and> \<not> isinstance_str v \<longrightarrow>
      fst (attr_list attrs fp) = Some TypeError \<and>
      fst (node n attrs fp) = Some TypeError \<and>
      fst (attr what attrs fp) = Some TypeError)"
proof -
  have a: "fst (id' v fp) = Some TypeError \<longleftrightarrow> \<not> isinstance_int_float v \<and> \<not> isinstance_str v"
    by (rule id'_TypeError_iff)
  have b: "fst (id' v fp) = None \<longleftrightarrow> isinstance_int_float v \<or> isinstance_str v"
    by (cases v) (simp_all add: id'_def write'_def raise_def)
  have c: "id' v fp = (Some TypeError, fp) \<and>
      key_value k v fp = (Some TypeError, snd (id' (PStr k) fp) @ ''='') \<and>
      node v attrs fp = (Some TypeError, fp @ [TAB]) \<and>
      edge v dst attrs fp = (Some TypeError, fp @ [TAB]) \<and>
      begin_subgraph v attrs fp = (Some TypeError, fp @ ''subgraph '')"
    if u: "\<not> isinstance_int_float v \<and> \<not> isinstance_str v"
  proof -
    from u have i: "\<And>fp. id' v fp = (Some TypeError, fp)" by (simp add: id'_unsupported)
    from u have "key_value k v fp = (Some TypeError, snd (id' (PStr k) fp) @ ''='')"
      by (simp add: key_value_unsupported)
    moreover have "node v attrs fp = (Some TypeError, fp @ [TAB])"
      by (simp add: node_def write'_def i)
    moreover have "edge v dst attrs fp = (Some TypeError, fp @ [TAB])"
      by (simp add: edge_def write'_def i)
    moreover have "begin_subgraph v attrs fp = (Some TypeError, fp @ ''subgraph '')"
      by (simp add: begin_subgraph_def write'_def i)
    ultimately show ?thesis using i by blast
  qed
  have d: "fst (attr_list attrs fp) = Some TypeError \<and>
      fst (node n attrs fp) = Some TypeError \<and>
      fst (attr what attrs fp) = Some TypeError"
    if h: "distinct (map fst attrs) \<and> (k, v) \<in> set attrs \<and> v \<noteq> PNone \<and>
    \<not> isinstance_int_float v \<and> \<not> isinstance_str v"
  proof -
    from h have ne: "attrs \<noteq> []" by auto
    from h have "(k, v) \<in> set (sorted_iteritems attrs)" by (simp add: sorted_iteritems_set)
    with h have l: "\<And>fp. fst (attr_list_loop True (sorted_iteritems attrs) fp) = Some TypeError"
      by (simp add: attr_list_loop_unsupported)
    have al: "\<And>fp. fst (attr_list attrs fp) = Some TypeError"
      using ne by (simp add: attr_list_def seq_write seq_error_first l del: seq.simps(2))
    have "fst (node n attrs fp) = Some TypeError"
    proof (cases "isinstance_int_float n \<or> isinstance_str n")
      case True
      then have "fst (id' n (fp @ [TAB])) = None" by (rule id'_ok)
      then obtain fp' where "id' n (fp @ [TAB]) = (None, fp')"
        by (cases "id' n (fp @ [TAB])") simp
      then have "seq [id' n, attr_list attrs, write' ('';'' @ [NL])] (fp @ [TAB]) =
                 seq [attr_list attrs, write' ('';'' @ [NL])] fp'"
        by simp
      then show ?thesis
        by (simp add: node_def seq_write seq_error_first al del: seq.simps(2))
    next
      case False
      then have "id' n (fp @ [TAB]) = (Some TypeError, fp @ [TAB])" by (simp add: id'_unsupported)
      then show ?thesis by (simp add: node_def write'_def)
    qed
    moreover have "fst (attr what attrs fp) = Some TypeError"
      by (simp add: attr_def seq_write seq_error_first al del: seq.simps(2))
    ultimately show ?thesis using al by blast
  qed
  from a b c d show ?thesis by blast
qed

theorem unsupported_type_raises_witness:
  "id' POther ''x'' = (Some TypeError, ''x'') \<and>
   node POther [(''a'', PInt 1)] ''x'' = (Some TypeError, ''x'' @ [TAB]) \<and>
   fst (node (PStr ''n'') [(''a'', PInt 1), (''b'', POther)] []) = Some TypeError \<and>
   node (PStr ''n'') [(''a'', PInt 1), (''b'', POther)] [] = (Some TypeError, [TAB] @ ''n [a=1, b='')"
proof -
  have u: "\<not> isinstance_int_float POther \<and> \<not> isinstance_str POther" by simp
  have h: "distinct (map fst [(''a'', PInt 1), (''b'', POther)]) \<and>
     (''b'', POther) \<in> set [(''a'', PInt 1), (''b'', POther)] \<and> POther \<noteq> PNone \<and>
     \<not> isinstance_int_float POther \<and> \<not> isinstance_str POther" by simp
  from unsupported_type_raises [of POther "''x''" "''b''" "[(''a'', PInt 1)]"] u
  have 1: "id' POther ''x'' = (Some TypeError, ''x'') \<and>
   node POther [(''a'', PInt 1)] ''x'' = (Some TypeError, ''x'' @ [TAB])" by blast
  from unsupported_type_raises [of POther "[]" "''b''" "[(''a'', PInt 1), (''b'', POther)]" _ "PStr ''n''"] h
  have 2: "fst (node (PStr ''n'') [(''a'', PInt 1), (''b'', POther)] []) = Some TypeError" by blast
  have 3: "node (PStr ''n'') [(''a'', PInt 1), (''b'', POther)] [] = (Some TypeError, [TAB] @ ''n [a=1, b='')"
    by (simp add: writer_eval str_int_def digits.simps)
  from 1 2 3 show ?thesis by blast
qed

text \<open>C10: a boolean passes the number test of \<^verbatim>\<open>DotWriter.id\<close> and is written
  unquoted as \<^verbatim>\<open>True\<close> or \<^verbatim>\<open>False\<close>, as an identifier and as an attribute value;
  \<^verbatim>\<open>id\<close> raises only for a value that is not a boolean, an integer, a float or a
  string.\<close>

theorem bool_rendered_as_number:
  "isinstance_int_float (PBool b) \<and>
   id' (PBool b) fp = (None, fp @ (if b then ''True'' else ''False'')) \<and>
   key_value ''k'' (PBool b) fp = (None, fp @ ''k='' @ (if b then ''True'' else ''False'')) \<and>
   node (PBool True) [(''k'', PBool False)] [] = (None, [TAB] @ ''True [k=False];'' @ [NL]) \<and>
   (fst (id' v fp) = Some TypeError \<longleftrightarrow> v = PNone \<or> v = POther) \<and>
   ((\<exists>e. fst (id' v fp) = Some e) \<longleftrightarrow>
      (\<forall>c. v \<noteq> PBool c) \<and> (\<forall>n. v \<noteq> PInt n) \<and> (\<forall>r. v \<noteq> PFloat r) \<and> (\<forall>s. v \<noteq> PStr s))"
proof -
  have 1: "id' (PBool b) fp = (None, fp @ (if b then ''True'' else ''False''))"
    by (simp add: id'_def write'_def str_bool_def)
  have 2: "key_value ''k'' (PBool b) fp = (None, fp @ ''k='' @ (if b then ''True'' else ''False''))"
    by (simp add: writer_eval)
  have 3: "node (PBool True) [(''k'', PBool False)] [] = (None, [TAB] @ ''True [k=False];'' @ [NL])"
    by (simp add: writer_eval)
  have 4: "fst (id' v fp) = Some TypeError \<longleftrightarrow> v = PNone \<or> v = POther"
    by (cases v) (simp_all add: id'_def write'_def raise_def)
  have 5: "(\<exists>e. fst (id' v fp) = Some e) \<longleftrightarrow>
      (\<forall>c. v \<noteq> PBool c) \<and> (\<forall>n. v \<noteq> PInt n) \<and> (\<forall>r. v \<noteq> PFloat r) \<and> (\<forall>s. v \<noteq> PStr s)"
    by (cases v) (simp_all add: id'_def write'_def raise_def)
  from 1 2 3 4 5 show ?thesis by simp
qed





end
